theory Spec2Isabelle
  imports Main
begin

section \<open>Epsilon: an SVN to Discord webhook (epsilon.py)\<close>

text \<open>
  A shallow embedding of \<^verbatim>\<open>main\<close> of epsilon.py: the startup seeding of the revision
  counters, the polling loop with its two exception handlers, and the text block built for
  every commit. Python strings are lists of characters, so \<^verbatim>\<open>len\<close> is \<open>length\<close>;
  Python integers are \<open>int\<close>.
\<close>

subsection \<open>Python string primitives used by the script\<close>

definition newline :: char where
  "newline = CHR 0x0A"

text \<open>\<^verbatim>\<open>str(n)\<close> for an integer, as \<^verbatim>\<open>str.format\<close> renders it: decimal, with a sign.\<close>

fun digits :: "nat \<Rightarrow> string" where
  "digits n =
     (if n < 10 then [''0123456789'' ! n]
      else digits (n div 10) @ [''0123456789'' ! (n mod 10)])"

definition str_int :: "int \<Rightarrow> string" where
  "str_int i = (if i < 0 then CHR ''-'' # digits (nat (- i)) else digits (nat i))"

text \<open>\<^verbatim>\<open>s.count(c)\<close> for a separator of one character.\<close>

definition str_count :: "string \<Rightarrow> char \<Rightarrow> int" where
  "str_count s c = int (count_list s c)"

text \<open>
  \<^verbatim>\<open>s.split(c)\<close> for a separator of one character: a left-to-right scan that closes the
  current piece at every separator, and the last piece at the end of the string.
\<close>

fun split_scan :: "string \<Rightarrow> char \<Rightarrow> string \<Rightarrow> string list" where
  "split_scan [] sep cur = [cur]"
| "split_scan (c # cs) sep cur =
     (if c = sep then cur # split_scan cs sep [] else split_scan cs sep (cur @ [c]))"

definition str_split :: "string \<Rightarrow> char \<Rightarrow> string list" where
  "str_split s sep = split_scan s sep []"

text \<open>
  \<^verbatim>\<open>s[start:stop]\<close>: a negative index counts from the end, and both ends are clamped to
  the string.
\<close>

definition py_slice :: "'a list \<Rightarrow> int \<Rightarrow> int \<Rightarrow> 'a list" where
  "py_slice s start stop =
     (let n = int (length s);
          a = (if start < 0 then max 0 (start + n) else min start n);
          b = (if stop < 0 then max 0 (stop + n) else min stop n)
      in take (nat (b - a)) (drop (nat a) s))"

subsection \<open>The templates (lines 19 to 22)\<close>

definition hook_commit_dateformat :: string where
  "hook_commit_dateformat = ''%Y-%m-%d %H:%M:%S %z (%a, %d %b %Y)''"

text \<open>Each template is the function that \<^verbatim>\<open>template.format(...)\<close> computes.\<close>

definition commit_header_template ::
  "string \<Rightarrow> string \<Rightarrow> string \<Rightarrow> string \<Rightarrow> string \<Rightarrow> string" where
  "commit_header_template revision author cdate linecount linestr =
     ''r'' @ revision @ '' | '' @ author @ '' | '' @ cdate @ '' | '' @ linecount @ '' '' @ linestr"

definition commit_modeline_template :: "string \<Rightarrow> string \<Rightarrow> string" where
  "commit_modeline_template mode filepath = mode @ '' | '' @ filepath"

definition commit_template :: "string \<Rightarrow> string \<Rightarrow> string \<Rightarrow> string \<Rightarrow> string" where
  "commit_template header separator changes message =
     ''```'' @ [newline] @ header @ [newline] @ separator @ [newline] @
     ''Changed paths:'' @ [newline] @ changes @ [newline] @ separator @ [newline] @
     ''Commit message:'' @ [newline] @ message @ [newline] @ ''```''"

subsection \<open>A log entry and its text block (lines 106 to 127)\<close>

text \<open>
  \<^verbatim>\<open>log.date\<close> is a datetime object of the standard library; the script only calls its
  \<^verbatim>\<open>strftime\<close> method, which is the one field of the record.
\<close>

record datetime =
  strftime :: "string \<Rightarrow> string"

record svn_log =
  revision :: int
  author :: string
  date :: datetime
  msg :: string
  changelist :: "(string \<times> string) list"

definition commit_time :: "svn_log \<Rightarrow> string" where
  "commit_time log = strftime (date log) hook_commit_dateformat"

definition commit_linecount :: "svn_log \<Rightarrow> int" where
  "commit_linecount log = str_count (msg log) newline + 1"

definition linestr :: "svn_log \<Rightarrow> string" where
  "linestr log = (if commit_linecount log = 1 then ''line'' else ''lines'')"

definition commit_header :: "svn_log \<Rightarrow> string" where
  "commit_header log =
     commit_header_template (str_int (revision log)) (author log) (commit_time log)
       (str_int (commit_linecount log)) (linestr log)"

definition commit_separator :: "svn_log \<Rightarrow> string" where
  "commit_separator log = replicate (length (commit_header log)) (CHR ''-'')"

text \<open>The loop over \<^verbatim>\<open>log.changelist\<close> (lines 115 to 117), with its accumulator.\<close>

fun changes_loop :: "(string \<times> string) list \<Rightarrow> string \<Rightarrow> string" where
  "changes_loop [] acc = acc"
| "changes_loop (c # cs) acc =
     changes_loop cs (acc @ commit_modeline_template (fst c) (snd c) @ [newline])"

definition commit_changes :: "svn_log \<Rightarrow> string" where
  "commit_changes log = py_slice (changes_loop (changelist log) []) 0 (- 1)"

text \<open>The loop over \<^verbatim>\<open>log.msg.split("\n")\<close> (lines 121 to 124).\<close>

fun message_loop :: "string list \<Rightarrow> string \<Rightarrow> string" where
  "message_loop [] acc = acc"
| "message_loop (m # ms) acc =
     message_loop ms (acc @ replicate 4 (CHR '' '') @ m @ [newline])"

definition commit_message :: "svn_log \<Rightarrow> string" where
  "commit_message log = message_loop (str_split (msg log) newline) []"

definition new_commit_string :: "svn_log \<Rightarrow> string" where
  "new_commit_string log =
     commit_template (commit_header log) (commit_separator log)
       (commit_changes log) (commit_message log)"

subsection \<open>The polling loop (lines 80 to 147)\<close>

text \<open>
  The exceptions the loop can meet: the one the inner handler names, the one the outer
  handler names, and \<open>DeliveryError\<close> for whatever the webhook library raises from
  \<^verbatim>\<open>hook.send\<close> (its own and the HTTP library's exceptions, none of them an
  \<^verbatim>\<open>SvnException\<close>).
\<close>

datatype exn = SvnException | KeyboardInterrupt | DeliveryError

text \<open>
  The variables of \<^verbatim>\<open>main\<close> that the loop reads and writes, and what it has done to the
  outside so far: the ranges asked of \<^verbatim>\<open>log_default\<close>, the contents handed to
  \<^verbatim>\<open>hook.send\<close> that went through, and the arguments of \<^verbatim>\<open>time.sleep\<close>.
\<close>

record loop_state =
  c_rev :: int
  p_rev :: int
  delay_increment :: int
  fetched :: "(int \<times> int) list"
  sent :: "string list"
  slept :: "int list"

text \<open>
  What the outside answers during one iteration: \<^verbatim>\<open>svn_client.info()["commit_revision"]\<close>,
  \<^verbatim>\<open>svn_client.log_default(...)\<close>, the \<open>i\<close>-th call of \<^verbatim>\<open>hook.send\<close> in the batch
  (\<open>None\<close>: it returns), and \<^verbatim>\<open>time.sleep\<close>.
\<close>

record cycle =
  info_r :: "exn + int"
  log_r :: "exn + svn_log list"
  send_r :: "nat \<Rightarrow> exn option"
  sleep_r :: "exn option"

text \<open>
  Lines 81, 82 and 96. \<^verbatim>\<open>args.initial_revision\<close> is \<open>None\<close> when the option is absent;
  the conditional expression tests its truth value, which is false for \<open>None\<close> and for 0.
  The second argument is the \<^verbatim>\<open>commit_revision\<close> that \<^verbatim>\<open>svn_client.info()\<close> returned
  at line 80. The two early returns before the loop (lines 74 to 76 and 87 to 89) do not
  touch the counters and are left out.
\<close>

definition startup :: "int option \<Rightarrow> int \<Rightarrow> loop_state" where
  "startup initial_revision commit_revision =
     (let c = (case initial_revision of
                 None \<Rightarrow> commit_revision
               | Some r \<Rightarrow> if r \<noteq> 0 then r else commit_revision)
      in \<lparr>c_rev = c, p_rev = c, delay_increment = 0, fetched = [], sent = [], slept = []\<rparr>)"

text \<open>The loop over \<^verbatim>\<open>all_logs\<close> (lines 105 to 131); an exception of \<^verbatim>\<open>hook.send\<close> leaves it.\<close>

fun send_loop ::
  "(nat \<Rightarrow> exn option) \<Rightarrow> nat \<Rightarrow> svn_log list \<Rightarrow> loop_state \<Rightarrow> exn option \<times> loop_state" where
  "send_loop hook_send i [] s = (None, s)"
| "send_loop hook_send i (log # logs) s =
     (case hook_send i of
        Some e \<Rightarrow> (Some e, s)
      | None \<Rightarrow>
          send_loop hook_send (Suc i) logs (s\<lparr>sent := sent s @ [new_commit_string log]\<rparr>))"

text \<open>The body of the inner \<^verbatim>\<open>try\<close> (lines 99 to 133): the exception that leaves it, if any.\<close>

definition try_block :: "cycle \<Rightarrow> loop_state \<Rightarrow> exn option \<times> loop_state" where
  "try_block c s =
     (case info_r c of
        Inl e \<Rightarrow> (Some e, s)
      | Inr head \<Rightarrow>
          (let s1 = s\<lparr>c_rev := head\<rparr> in
           if c_rev s1 > p_rev s1 then
             (let s2 = s1\<lparr>fetched := fetched s1 @ [(p_rev s1 + 1, c_rev s1)]\<rparr> in
              case log_r c of
                Inl e \<Rightarrow> (Some e, s2)
              | Inr all_logs \<Rightarrow> send_loop (send_r c) 0 all_logs s2)
           else (None, s1)))"

text \<open>
  The \<^verbatim>\<open>try\<close> with its \<^verbatim>\<open>except svn.exception.SvnException\<close> and \<^verbatim>\<open>else\<close> clauses
  (lines 98 to 140): any other exception passes through.
\<close>

definition try_except_else :: "cycle \<Rightarrow> loop_state \<Rightarrow> exn option \<times> loop_state" where
  "try_except_else c s =
     (case try_block c s of
        (Some e, s') \<Rightarrow>
          if e = SvnException
          then (None, s'\<lparr>delay_increment := min (delay_increment s' + 15) 120\<rparr>)
          else (Some e, s')
      | (None, s') \<Rightarrow> (None, s'\<lparr>delay_increment := 0, p_rev := c_rev s'\<rparr>))"

text \<open>One pass through the body of \<^verbatim>\<open>while True\<close>, the sleep of line 142 included.\<close>

definition iteration :: "int \<Rightarrow> cycle \<Rightarrow> loop_state \<Rightarrow> exn option \<times> loop_state" where
  "iteration poll_time c s =
     (case try_except_else c s of
        (Some e, s') \<Rightarrow> (Some e, s')
      | (None, s') \<Rightarrow> (sleep_r c, s'\<lparr>slept := slept s' @ [poll_time + delay_increment s']\<rparr>))"

text \<open>
  The loop inside the outer \<^verbatim>\<open>try\<close> (lines 94 to 147), run against the answers of
  finitely many iterations: still \<open>Polling\<close> when the answers are used up, \<open>Returned 0\<close>
  after a \<^verbatim>\<open>KeyboardInterrupt\<close>, and \<open>Raised\<close> when another exception leaves
  \<^verbatim>\<open>main\<close>.
\<close>

datatype outcome = Polling loop_state | Returned int loop_state | Raised exn loop_state

fun while_true :: "int \<Rightarrow> cycle list \<Rightarrow> loop_state \<Rightarrow> outcome" where
  "while_true poll_time [] s = Polling s"
| "while_true poll_time (c # cs) s =
     (case iteration poll_time c s of
        (None, s') \<Rightarrow> while_true poll_time cs s'
      | (Some e, s') \<Rightarrow> if e = KeyboardInterrupt then Returned 0 s' else Raised e s')"

fun state_of :: "outcome \<Rightarrow> loop_state" where
  "state_of (Polling s) = s"
| "state_of (Returned n s) = s"
| "state_of (Raised e s) = s"

text \<open>The HEAD values that the answers of a run hold, in order.\<close>

fun observed_heads :: "cycle list \<Rightarrow> int list" where
  "observed_heads [] = []"
| "observed_heads (c # cs) =
     (case info_r c of Inl e \<Rightarrow> observed_heads cs | Inr head \<Rightarrow> head # observed_heads cs)"

text \<open>
  The HEAD values of the iterations of a run whose \<^verbatim>\<open>try\<close> block ended without an
  exception, in order: the iterations that delivered their whole batch and reached the
  \<^verbatim>\<open>else\<close> clause.
\<close>

fun delivered_heads :: "int \<Rightarrow> cycle list \<Rightarrow> loop_state \<Rightarrow> int list" where
  "delivered_heads poll_time [] s = []"
| "delivered_heads poll_time (c # cs) s =
     (case iteration poll_time c s of
        (r, s') \<Rightarrow>
          (if fst (try_block c s) = None then [c_rev s'] else []) @
          (if r = None then delivered_heads poll_time cs s' else []))"


subsection \<open>Concrete inputs\<close>

text \<open>
  Commits, clocks and answers of the outside for the examples below: a clock that prints
  one fixed text, a clock that prints it for one format only, a \<^verbatim>\<open>hook.send\<close> that
  always returns and one that raises at the \<open>j\<close>-th call, and an iteration whose sleep
  returns.
\<close>

definition clock :: "string \<Rightarrow> datetime" where
  "clock t = \<lparr>strftime = (\<lambda>fmt. t)\<rparr>"

definition clock_for :: "string \<Rightarrow> string \<Rightarrow> datetime" where
  "clock_for f t = \<lparr>strftime = (\<lambda>fmt. if fmt = f then t else [])\<rparr>"

definition commit :: "int \<Rightarrow> string \<Rightarrow> (string \<times> string) list \<Rightarrow> svn_log" where
  "commit r m cl =
     \<lparr>revision = r, author = ''dino'', date = clock ''2021-03-04 10:20:30 +0000 (Thu, 04 Mar 2021)'',
      msg = m, changelist = cl\<rparr>"

definition send_ok :: "nat \<Rightarrow> exn option" where
  "send_ok i = None"


definition poll :: "exn + int \<Rightarrow> exn + svn_log list \<Rightarrow> (nat \<Rightarrow> exn option) \<Rightarrow> cycle" where
  "poll i l h = \<lparr>info_r = i, log_r = l, send_r = h, sleep_r = None\<rparr>"

section \<open>Properties\<close>

subsection \<open>The loop's exceptions and its frame\<close>

lemma send_loop_frame:
  "send_loop h i logs s = (r, s') \<Longrightarrow>
     c_rev s' = c_rev s \<and> p_rev s' = p_rev s \<and> delay_increment s' = delay_increment s \<and>
     fetched s' = fetched s \<and> slept s' = slept s"
  by (induction logs arbitrary: i s) (auto split: option.splits)

lemma send_loop_all_ok:
  "(\<forall>k<length logs. h (i + k) = None) \<Longrightarrow>
     send_loop h i logs s = (None, s\<lparr>sent := sent s @ map new_commit_string logs\<rparr>)"
proof (induction logs arbitrary: i s)
  case Nil
  then show ?case by simp
next
  case (Cons l logs)
  have h0: "h i = None" using Cons.prems by (auto dest: spec [of _ 0])
  have "\<forall>k<length logs. h (Suc i + k) = None"
    using Cons.prems by (auto dest: spec [of _ "Suc _"])
  then show ?case using Cons.IH [of "Suc i"] h0 by simp
qed


lemma send_loop_None_all_ok:
  "send_loop h i logs s = (None, s') \<Longrightarrow>
     (\<forall>k<length logs. h (i + k) = None) \<and> s' = s\<lparr>sent := sent s @ map new_commit_string logs\<rparr>"
proof (induction logs arbitrary: i s)
  case Nil
  then show ?case by simp
next
  case (Cons l logs)
  from Cons.prems have h0: "h i = None" by (auto split: option.splits)
  with Cons.prems have
    "send_loop h (Suc i) logs (s\<lparr>sent := sent s @ [new_commit_string l]\<rparr>) = (None, s')"
    by simp
  from Cons.IH [OF this] have
    a: "\<forall>k<length logs. h (Suc i + k) = None" and
    b: "s' = s\<lparr>sent := sent s @ new_commit_string l # map new_commit_string logs\<rparr>" by auto
  have "\<forall>k<length (l # logs). h (i + k) = None"
  proof (intro allI impI)
    fix k assume "k < length (l # logs)"
    then show "h (i + k) = None" using a h0 by (cases k) auto
  qed
  then show ?case using b by simp
qed

lemma try_block_frame:
  "try_block c s = (r, s') \<Longrightarrow>
     p_rev s' = p_rev s \<and> delay_increment s' = delay_increment s \<and> slept s' = slept s"
  by (auto simp: try_block_def Let_def split: sum.splits if_splits dest: send_loop_frame)







lemma try_block_None:
  assumes "try_block c s = (None, s')"
  shows "\<exists>head. info_r c = Inr head \<and> c_rev s' = head \<and>
           (p_rev s < head \<longrightarrow>
              (\<exists>logs. log_r c = Inr logs \<and> (\<forall>i<length logs. send_r c i = None) \<and>
                 s' = s\<lparr>c_rev := head, fetched := fetched s @ [(p_rev s + 1, head)],
                        sent := sent s @ map new_commit_string logs\<rparr>)) \<and>
           (\<not> p_rev s < head \<longrightarrow> s' = s\<lparr>c_rev := head\<rparr>)"
proof (cases "info_r c")
  case (Inl e)
  then show ?thesis using assms by (simp add: try_block_def)
next
  case (Inr head)
  show ?thesis
  proof (cases "p_rev s < head")
    case False
    then show ?thesis using assms Inr by (auto simp: try_block_def Let_def)
  next
    case True
    show ?thesis
    proof (cases "log_r c")
      case (Inl e)
      then show ?thesis using assms Inr True by (simp add: try_block_def Let_def)
    next
      case (Inr logs)
      let ?s2 = "s\<lparr>c_rev := head, fetched := fetched s @ [(p_rev s + 1, head)]\<rparr>"
      have "send_loop (send_r c) 0 logs ?s2 = (None, s')"
        using assms \<open>info_r c = Inr head\<close> True Inr by (simp add: try_block_def Let_def)
      from send_loop_None_all_ok [OF this]
      show ?thesis using \<open>info_r c = Inr head\<close> True Inr by simp
    qed
  qed
qed

lemma iteration_p_rev:
  assumes "iteration pt c s = (r, s')"
  shows "p_rev s' = p_rev s \<and> fst (try_block c s) \<noteq> None \<or>
         fst (try_block c s) = None \<and> info_r c = Inr (p_rev s') \<and> c_rev s' = p_rev s'"
proof (cases "try_block c s")
  case (Pair x t)
  note fr = try_block_frame [OF Pair]
  show ?thesis
  proof (cases x)
    case None
    with Pair try_block_None [of c s t] have "info_r c = Inr (c_rev t)" by auto
    then show ?thesis using assms Pair None
      by (auto simp: iteration_def try_except_else_def)
  next
    case (Some e)
    then show ?thesis using assms Pair fr
      by (auto simp: iteration_def try_except_else_def split: if_splits)
  qed
qed



lemma while_true_single:
  "state_of (while_true pt [c] s) = snd (iteration pt c s)"
  by (cases "iteration pt c s") (auto split: option.splits)



lemma while_true_append:
  "while_true pt (xs @ ys) s =
     (case while_true pt xs s of
        Polling s' \<Rightarrow> while_true pt ys s'
      | Returned n s' \<Rightarrow> Returned n s'
      | Raised e s' \<Rightarrow> Raised e s')"
proof (induction xs arbitrary: s)
  case Nil
  then show ?case by simp
next
  case (Cons c xs)
  obtain r s' where it: "iteration pt c s = (r, s')" by (cases "iteration pt c s")
  show ?case using it Cons.IH [of s'] by (cases r) auto
qed

lemma observed_heads_append:
  "observed_heads (xs @ ys) = observed_heads xs @ observed_heads ys"
  by (induction xs) (auto split: sum.splits)

lemma p_rev_seed_or_head:
  "p_rev (state_of (while_true pt cs s)) \<in> insert (p_rev s) (set (observed_heads cs))"
proof (induction cs arbitrary: s)
  case Nil
  then show ?case by simp
next
  case (Cons c cs)
  obtain r s' where it: "iteration pt c s = (r, s')" by (cases "iteration pt c s")
  have step: "p_rev s' = p_rev s \<or> p_rev s' \<in> set (observed_heads (c # cs))"
  proof (cases "p_rev s' = p_rev s")
    case True
    then show ?thesis by simp
  next
    case False
    then have "info_r c = Inr (p_rev s')" using iteration_p_rev [OF it] by blast
    then show ?thesis by simp
  qed
  have sub: "set (observed_heads cs) \<subseteq> set (observed_heads (c # cs))"
    by (cases "info_r c") auto
  show ?case
  proof (cases r)
    case None
    then have eq: "state_of (while_true pt (c # cs) s) = state_of (while_true pt cs s')"
      using it by simp
    have "p_rev (state_of (while_true pt cs s')) = p_rev s' \<or>
          p_rev (state_of (while_true pt cs s')) \<in> set (observed_heads cs)"
      using Cons.IH [of s'] by blast
    then show ?thesis unfolding eq using step sub by (metis insert_iff subsetD)
  next
    case (Some e)
    then have eq: "state_of (while_true pt (c # cs) s) = s'" using it by simp
    show ?thesis unfolding eq using step by (metis insert_iff)
  qed
qed

lemma p_rev_step_mono:
  assumes "sorted (p_rev s # observed_heads cs)" "n < length cs"
    "while_true pt (take n cs) s = Polling sn"
  shows "p_rev sn \<le> p_rev (snd (iteration pt (cs ! n) sn))"
proof -
  obtain r s' where it: "iteration pt (cs ! n) sn = (r, s')"
    by (cases "iteration pt (cs ! n) sn")
  have mem: "p_rev sn \<in> insert (p_rev s) (set (observed_heads (take n cs)))"
    using p_rev_seed_or_head [of pt "take n cs" s] assms(3) by simp
  have split: "observed_heads cs =
      observed_heads (take n cs) @ observed_heads [cs ! n] @ observed_heads (drop (Suc n) cs)"
    using observed_heads_append [of "take n cs" "drop n cs"]
      observed_heads_append [of "[cs ! n]" "drop (Suc n) cs"] assms(2)
    by (simp add: Cons_nth_drop_Suc)
  from iteration_p_rev [OF it] show ?thesis
  proof
    assume "p_rev s' = p_rev sn \<and> fst (try_block (cs ! n) sn) \<noteq> None"
    then show ?thesis using it by simp
  next
    assume "fst (try_block (cs ! n) sn) = None \<and> info_r (cs ! n) = Inr (p_rev s') \<and>
            c_rev s' = p_rev s'"
    then have "observed_heads [cs ! n] = [p_rev s']" by simp
    then have "sorted ((p_rev s # observed_heads (take n cs)) @ p_rev s' #
                 observed_heads (drop (Suc n) cs))"
      using assms(1) split by simp
    then have "\<forall>x\<in>set (p_rev s # observed_heads (take n cs)). x \<le> p_rev s'"
      unfolding sorted_append by simp
    then show ?thesis using mem it by auto
  qed
qed

lemma p_rev_delivered_heads:
  "p_rev (state_of (while_true pt cs s)) =
     (if delivered_heads pt cs s = [] then p_rev s else last (delivered_heads pt cs s))"
proof (induction cs arbitrary: s)
  case Nil
  then show ?case by simp
next
  case (Cons c cs)
  obtain r s' where it: "iteration pt c s = (r, s')" by (cases "iteration pt c s")
  from iteration_p_rev [OF it] show ?case
  proof
    assume a: "p_rev s' = p_rev s \<and> fst (try_block c s) \<noteq> None"
    show ?thesis using it a Cons.IH [of s'] by (cases r) auto
  next
    assume a: "fst (try_block c s) = None \<and> info_r c = Inr (p_rev s') \<and> c_rev s' = p_rev s'"
    show ?thesis using it a Cons.IH [of s'] by (cases r) auto
  qed
qed

lemma delivered_heads_observed:
  "set (delivered_heads pt cs s) \<subseteq> set (observed_heads cs)"
proof (induction cs arbitrary: s)
  case Nil
  then show ?case by simp
next
  case (Cons c cs)
  obtain r s' where it: "iteration pt c s = (r, s')" by (cases "iteration pt c s")
  from iteration_p_rev [OF it] show ?case
    using it Cons.IH [of s'] by (auto split: sum.splits)
qed

subsection \<open>The text of a commit\<close>

lemma changes_loop_concat:
  "changes_loop cl acc =
     acc @ concat (map (\<lambda>c. commit_modeline_template (fst c) (snd c) @ [newline]) cl)"
  by (induction cl arbitrary: acc) auto

lemma message_loop_concat:
  "message_loop ms acc = acc @ concat (map (\<lambda>m. replicate 4 (CHR '' '') @ m @ [newline]) ms)"
  by (induction ms arbitrary: acc) auto

lemma py_slice_drops_last: "py_slice s 0 (- 1) = butlast s"
proof -
  have "nat (max 0 (int (length s) - 1)) = length s - 1" by auto
  then show ?thesis by (simp add: py_slice_def Let_def butlast_conv_take)
qed

lemma split_scan_skip:
  "sep \<notin> set a \<Longrightarrow> split_scan (a @ b) sep cur = split_scan b sep (cur @ a)"
  by (induction a arbitrary: cur) auto

lemma split_scan_piece:
  "sep \<notin> set a \<Longrightarrow> split_scan (a @ sep # b) sep cur = (cur @ a) # split_scan b sep []"
  using split_scan_skip [of sep a "sep # b" cur] by simp

lemma split_scan_last:
  "sep \<notin> set a \<Longrightarrow> split_scan a sep cur = [cur @ a]"
  using split_scan_skip [of sep a "[]" cur] by simp

lemma split_scan_length:
  "length (split_scan s sep cur) = count_list s sep + 1"
  by (induction s arbitrary: cur) auto

lemma split_scan_join:
  "concat (map (\<lambda>p. p @ [sep]) (split_scan s sep cur)) = cur @ s @ [sep]"
  by (induction s arbitrary: cur) auto

lemma split_scan_pieces:
  "sep \<notin> set cur \<Longrightarrow> \<forall>p\<in>set (split_scan s sep cur). sep \<notin> set p"
proof (induction s arbitrary: cur)
  case Nil
  then show ?case by simp
next
  case (Cons c s)
  show ?case
  proof (cases "c = sep")
    case True
    have "\<forall>p\<in>set (split_scan s sep []). sep \<notin> set p" using Cons.IH [of "[]"] by simp
    then show ?thesis using True Cons.prems by simp
  next
    case False
    have "sep \<notin> set (cur @ [c])" using False Cons.prems by simp
    from Cons.IH [OF this] show ?thesis using False by simp
  qed
qed

lemma split_scan_lines:
  "(\<forall>p\<in>set ps. sep \<notin> set (f p)) \<Longrightarrow>
     split_scan (concat (map (\<lambda>p. f p @ [sep]) ps)) sep [] = map f ps @ [[]]"
proof (induction ps)
  case Nil
  then show ?case by simp
next
  case (Cons p ps)
  have "sep \<notin> set (f p)" using Cons.prems by simp
  then have "split_scan (f p @ sep # concat (map (\<lambda>p. f p @ [sep]) ps)) sep [] =
      f p # split_scan (concat (map (\<lambda>p. f p @ [sep]) ps)) sep []"
    using split_scan_piece [of sep "f p" _ "[]"] by simp
  then show ?case using Cons by simp
qed

lemma split_scan_lines_butlast:
  "ps \<noteq> [] \<Longrightarrow> (\<forall>p\<in>set ps. sep \<notin> set (f p)) \<Longrightarrow>
     split_scan (butlast (concat (map (\<lambda>p. f p @ [sep]) ps))) sep [] = map f ps"
proof (induction ps)
  case Nil
  then show ?case by simp
next
  case (Cons p ps)
  have np: "sep \<notin> set (f p)" using Cons.prems by simp
  show ?case
  proof (cases ps)
    case Nil
    then show ?thesis using np split_scan_last [of sep "f p" "[]"] by (simp add: butlast_append)
  next
    case (Cons q qs)
    let ?rest = "concat (map (\<lambda>p. f p @ [sep]) ps)"
    have ne: "?rest \<noteq> []" using Cons by simp
    have "butlast (concat (map (\<lambda>p. f p @ [sep]) (p # ps))) = f p @ sep # butlast ?rest"
      using ne by (simp add: butlast_append)
    moreover have "split_scan (f p @ sep # butlast ?rest) sep [] =
        f p # split_scan (butlast ?rest) sep []"
      using np split_scan_piece [of sep "f p" "butlast ?rest" "[]"] by simp
    moreover have "split_scan (butlast ?rest) sep [] = map f ps"
      using Cons.IH Cons.prems Cons by simp
    ultimately show ?thesis by simp
  qed
qed

lemma butlast_lines:
  "ps \<noteq> [] \<Longrightarrow>
     butlast (concat (map (\<lambda>p. f p @ [sep]) ps)) =
       concat (map (\<lambda>p. f p @ [sep]) (butlast ps)) @ f (last ps)"
proof (induction ps)
  case Nil
  then show ?case by simp
next
  case (Cons p ps)
  show ?case
  proof (cases ps)
    case Nil
    then show ?thesis by (simp add: butlast_append)
  next
    case (Cons q qs)
    then have "concat (map (\<lambda>p. f p @ [sep]) ps) \<noteq> []" by simp
    then show ?thesis using Cons.IH Cons by (simp add: butlast_append)
  qed
qed

lemma four_spaces: "replicate 4 (CHR '' '') = ''    ''"
  by (simp add: numeral_eq_Suc)

lemma last_of_lines:
  "ps \<noteq> [] \<Longrightarrow> last (concat (map (\<lambda>p. f p @ [sep]) ps)) = sep"
  by (induction ps rule: rev_induct) auto

lemma split_scan_trailing:
  "split_scan (s @ [sep]) sep cur = split_scan s sep cur @ [[]]"
  by (induction s arbitrary: cur) auto

lemma commit_changes_butlast:
  "commit_changes log =
     butlast (concat (map (\<lambda>c. (fst c @ '' | '' @ snd c) @ [newline]) (changelist log)))"
  by (simp add: commit_changes_def py_slice_drops_last changes_loop_concat
        commit_modeline_template_def)

lemma new_commit_string_layout:
  "new_commit_string log =
     ''```'' @ [newline] @ commit_header log @ [newline] @ commit_separator log @ [newline] @
     ''Changed paths:'' @ [newline] @ commit_changes log @ [newline] @
     commit_separator log @ [newline] @
     ''Commit message:'' @ [newline] @ commit_message log @ [newline] @ ''```''"
  by (simp add: new_commit_string_def commit_template_def)

subsection \<open>Backoff\<close>



subsection \<open>Startup\<close>

text \<open>
  Claim C10. An explicit initial revision of 0 fails the truth test of line 81 and is
  discarded: the counters are seeded from the HEAD observed at startup, exactly as when no
  initial revision is given. Only an initial revision other than 0 becomes the seed.
\<close>

theorem startup_seed:
  "startup (Some 0) head = startup None head \<and>
   p_rev (startup None head) = head \<and>
   (r \<noteq> 0 \<longrightarrow> p_rev (startup (Some r) head) = r \<and> c_rev (startup (Some r) head) = r)"
  by (simp add: startup_def)

theorem startup_seed_witness:
  "startup (Some 0) 42 = startup None 42 \<and> p_rev (startup None 42) = 42 \<and>
   (7::int) \<noteq> 0 \<and> p_rev (startup (Some 7) 42) = 7"
  using startup_seed [of 42 7] by simp

text \<open>
  Claim C4 at an explicit initial revision of 0 on a repository whose HEAD is 5: the seed
  is 5, and the first poll, which reads HEAD 5, fetches nothing, where the claim has the
  seed 0 and the first delta \<open>[1 .. 5]\<close>. With an initial revision of 1 the seed is 1
  and the first delta \<open>[2 .. 5]\<close>, so no initial revision replays revision 1.
\<close>

theorem initial_revision_zero_is_discarded:
  "p_rev (startup (Some 0) 5) = 5 \<and> c_rev (startup (Some 0) 5) = 5 \<and>
   fetched (snd (try_block (poll (Inr 5) (Inr []) send_ok) (startup (Some 0) 5))) = [] \<and>
   p_rev (startup (Some 1) 5) = 1 \<and>
   fetched (snd (try_block (poll (Inr 5) (Inr []) send_ok) (startup (Some 1) 5))) = [(2, 5)]"
  by (simp add: startup_def try_block_def poll_def)

subsection \<open>Advancing the confirmed revision\<close>







text \<open>
  Claim C3, as amended. When the seed of \<^verbatim>\<open>p_rev\<close> is at most the first observed HEAD and
  the observed HEADs are non-decreasing, \<^verbatim>\<open>p_rev\<close> is non-decreasing from each iteration to
  the next. For every seed, \<^verbatim>\<open>p_rev\<close> is the seed until an iteration ends without an
  exception, and from then on the HEAD observed by the most recent such iteration.
\<close>

theorem p_rev_non_decreasing_from_a_seed_below_head:
  "(sorted (p_rev s # observed_heads cs) \<longrightarrow>
      p_rev (state_of (while_true pt (take n cs) s))
        \<le> p_rev (state_of (while_true pt (take (Suc n) cs) s)) \<and>
      p_rev s \<le> p_rev (state_of (while_true pt cs s))) \<and>
   p_rev (state_of (while_true pt cs s)) =
     (if delivered_heads pt cs s = [] then p_rev s else last (delivered_heads pt cs s)) \<and>
   set (delivered_heads pt cs s) \<subseteq> set (observed_heads cs)"
proof (intro conjI impI)
  assume srt: "sorted (p_rev s # observed_heads cs)"
  show "p_rev (state_of (while_true pt (take n cs) s))
        \<le> p_rev (state_of (while_true pt (take (Suc n) cs) s))"
  proof (cases "n < length cs")
    case False
    then show ?thesis by simp
  next
    case True
    then have tk: "take (Suc n) cs = take n cs @ [cs ! n]" by (simp add: take_Suc_conv_app_nth)
    show ?thesis
    proof (cases "while_true pt (take n cs) s")
      case (Polling sn)
      then have "state_of (while_true pt (take (Suc n) cs) s) = snd (iteration pt (cs ! n) sn)"
        unfolding tk while_true_append by (simp only: outcome.case while_true_single)
      then show ?thesis using p_rev_step_mono [OF srt True Polling] Polling by simp
    next
      case (Returned k t)
      then show ?thesis unfolding tk while_true_append by simp
    next
      case (Raised e t)
      then show ?thesis unfolding tk while_true_append by simp
    qed
  qed
  show "p_rev s \<le> p_rev (state_of (while_true pt cs s))"
    using p_rev_seed_or_head [of pt cs s] srt by auto
next
  show "p_rev (state_of (while_true pt cs s)) =
     (if delivered_heads pt cs s = [] then p_rev s else last (delivered_heads pt cs s))"
    by (rule p_rev_delivered_heads)
next
  show "set (delivered_heads pt cs s) \<subseteq> set (observed_heads cs)"
    by (rule delivered_heads_observed)
qed

theorem p_rev_non_decreasing_from_a_seed_below_head_witness:
  "sorted (p_rev (startup (Some 3) 5) #
      observed_heads [poll (Inr 5) (Inr [commit 4 ''a'' [], commit 5 ''b'' []]) send_ok,
                      poll (Inr 8) (Inl SvnException) send_ok]) \<and>
   p_rev (state_of (while_true 120
      (take 0 [poll (Inr 5) (Inr [commit 4 ''a'' [], commit 5 ''b'' []]) send_ok,
               poll (Inr 8) (Inl SvnException) send_ok]) (startup (Some 3) 5)))
   \<le> p_rev (state_of (while_true 120
      (take (Suc 0) [poll (Inr 5) (Inr [commit 4 ''a'' [], commit 5 ''b'' []]) send_ok,
               poll (Inr 8) (Inl SvnException) send_ok]) (startup (Some 3) 5))) \<and>
   p_rev (state_of (while_true 120
      [poll (Inr 5) (Inr [commit 4 ''a'' [], commit 5 ''b'' []]) send_ok,
       poll (Inr 8) (Inl SvnException) send_ok] (startup (Some 3) 5))) = 5"
proof -
  let ?s = "startup (Some 3) 5"
  let ?cs = "[poll (Inr 5) (Inr [commit 4 ''a'' [], commit 5 ''b'' []]) send_ok,
              poll (Inr 8) (Inl SvnException) send_ok]"
  have srt: "sorted (p_rev ?s # observed_heads ?cs)"
    by (simp add: startup_def poll_def)
  have dh: "delivered_heads 120 ?cs ?s = [5]"
    by (simp add: startup_def poll_def iteration_def try_except_else_def try_block_def
          Let_def send_ok_def)
  show ?thesis
    using srt dh p_rev_non_decreasing_from_a_seed_below_head [of ?s ?cs 120 0]
    by simp
qed

text \<open>
  Claim C3 as stated fails for a seed above the observed HEAD: seeded with 100 on a
  repository whose HEAD is 50, the first poll lowers \<^verbatim>\<open>p_rev\<close> to 50.
\<close>

theorem p_rev_decreases_from_a_seed_above_head_counterexample:
  "p_rev (startup (Some 100) 50) = 100 \<and>
   p_rev (state_of (while_true 120 [poll (Inr 50) (Inr []) send_ok] (startup (Some 100) 50))) = 50"
  by (simp add: startup_def poll_def iteration_def try_except_else_def try_block_def Let_def)

subsection \<open>The formatted block\<close>

text \<open>
  Claim C6. The header line is \<open>r<revision> | <author> | <formatted timestamp> | <N> <unit>\<close>,
  where \<open>N\<close> is the number of newline characters of the message plus 1 and the unit is
  \<open>line\<close> when \<open>N = 1\<close> and \<open>lines\<close> otherwise; the separator is a run of \<open>-\<close> as long
  as the header; the block is laid out around them by the template; and the block is a
  function of the commit alone: two commits with the same revision, author, formatted
  timestamp, message and changed paths give the same block.
\<close>

theorem header_and_separator:
  "commit_header log =
     ''r'' @ str_int (revision log) @ '' | '' @ author log @ '' | '' @
     strftime (date log) hook_commit_dateformat @ '' | '' @
     str_int (int (count_list (msg log) newline) + 1) @ '' '' @
     (if int (count_list (msg log) newline) + 1 = 1 then ''line'' else ''lines'') \<and>
   commit_separator log = replicate (length (commit_header log)) (CHR ''-'') \<and>
   length (commit_separator log) = length (commit_header log) \<and>
   new_commit_string log =
     ''```'' @ [newline] @ commit_header log @ [newline] @ commit_separator log @ [newline] @
     ''Changed paths:'' @ [newline] @ commit_changes log @ [newline] @
     commit_separator log @ [newline] @
     ''Commit message:'' @ [newline] @ commit_message log @ [newline] @ ''```'' \<and>
   (revision log = revision log' \<and> author log = author log' \<and>
    strftime (date log) hook_commit_dateformat = strftime (date log') hook_commit_dateformat \<and>
    msg log = msg log' \<and> changelist log = changelist log' \<longrightarrow>
      new_commit_string log = new_commit_string log')"
proof (intro conjI impI)
  show "commit_header log =
     ''r'' @ str_int (revision log) @ '' | '' @ author log @ '' | '' @
     strftime (date log) hook_commit_dateformat @ '' | '' @
     str_int (int (count_list (msg log) newline) + 1) @ '' '' @
     (if int (count_list (msg log) newline) + 1 = 1 then ''line'' else ''lines'')"
    by (simp add: commit_header_def commit_header_template_def commit_time_def
          commit_linecount_def linestr_def str_count_def)
  show "commit_separator log = replicate (length (commit_header log)) (CHR ''-'')"
    by (simp add: commit_separator_def)
  show "length (commit_separator log) = length (commit_header log)"
    by (simp add: commit_separator_def)
  show "new_commit_string log =
     ''```'' @ [newline] @ commit_header log @ [newline] @ commit_separator log @ [newline] @
     ''Changed paths:'' @ [newline] @ commit_changes log @ [newline] @
     commit_separator log @ [newline] @
     ''Commit message:'' @ [newline] @ commit_message log @ [newline] @ ''```''"
    by (rule new_commit_string_layout)
next
  assume a: "revision log = revision log' \<and> author log = author log' \<and>
    strftime (date log) hook_commit_dateformat = strftime (date log') hook_commit_dateformat \<and>
    msg log = msg log' \<and> changelist log = changelist log'"
  then have h: "commit_header log = commit_header log'"
    by (simp add: commit_header_def commit_time_def commit_linecount_def linestr_def)
  then have "commit_separator log = commit_separator log'" by (simp add: commit_separator_def)
  moreover have "commit_changes log = commit_changes log'" using a by (simp add: commit_changes_def)
  moreover have "commit_message log = commit_message log'" using a by (simp add: commit_message_def)
  ultimately show "new_commit_string log = new_commit_string log'"
    using h by (simp add: new_commit_string_def)
qed

theorem header_and_separator_witness:
  "commit_header (commit 6 ''fix bug'' []) =
     ''r6 | dino | 2021-03-04 10:20:30 +0000 (Thu, 04 Mar 2021) | 1 line'' \<and>
   commit_header (commit 7 ''line1\<newline>line2'' []) =
     ''r7 | dino | 2021-03-04 10:20:30 +0000 (Thu, 04 Mar 2021) | 2 lines'' \<and>
   length (commit_separator (commit 6 ''fix bug'' [])) = 65 \<and>
   new_commit_string (commit 6 ''fix bug'' []) =
     new_commit_string ((commit 6 ''fix bug'' [])\<lparr>date := clock_for hook_commit_dateformat
        ''2021-03-04 10:20:30 +0000 (Thu, 04 Mar 2021)''\<rparr>)"
proof -
  let ?l = "commit 6 ''fix bug'' []"
  let ?l' = "(commit 6 ''fix bug'' [])\<lparr>date := clock_for hook_commit_dateformat
        ''2021-03-04 10:20:30 +0000 (Thu, 04 Mar 2021)''\<rparr>"
  have same: "revision ?l = revision ?l' \<and> author ?l = author ?l' \<and>
      strftime (date ?l) hook_commit_dateformat = strftime (date ?l') hook_commit_dateformat \<and>
      msg ?l = msg ?l' \<and> changelist ?l = changelist ?l'"
    by code_simp
  have h6: "''r'' @ str_int (revision ?l) @ '' | '' @ author ?l @ '' | '' @
      strftime (date ?l) hook_commit_dateformat @ '' | '' @
      str_int (int (count_list (msg ?l) newline) + 1) @ '' '' @
      (if int (count_list (msg ?l) newline) + 1 = 1 then ''line'' else ''lines'') =
      ''r6 | dino | 2021-03-04 10:20:30 +0000 (Thu, 04 Mar 2021) | 1 line''"
    by code_simp
  have h7: "commit_header (commit 7 ''line1\<newline>line2'' []) =
      ''r7 | dino | 2021-03-04 10:20:30 +0000 (Thu, 04 Mar 2021) | 2 lines''"
    by code_simp
  note t = header_and_separator [of ?l ?l']
  have hd: "commit_header ?l = ''r6 | dino | 2021-03-04 10:20:30 +0000 (Thu, 04 Mar 2021) | 1 line''"
    using t h6 by simp
  have "length (commit_separator ?l) = length (commit_header ?l)" using t by blast
  then have len: "length (commit_separator ?l) = 65" unfolding hd by simp
  have "new_commit_string ?l = new_commit_string ?l'" using t same by blast
  then show ?thesis using hd h7 len by simp
qed

text \<open>
  Claim C5, as amended. The message section is the concatenation, in order, of one line
  per piece of \<^verbatim>\<open>msg.split("\n")\<close>: four spaces, the piece, a newline. The pieces are as
  many as the header's line count, and joined by newlines they are the message. When the
  message ends in a newline the last piece is empty and is rendered as a line of four
  spaces: it is not suppressed. In the block the section is followed by the template's own
  newline and the closing fence.
\<close>

theorem message_lines_one_per_split_piece:
  "commit_message log =
     concat (map (\<lambda>m. ''    '' @ m @ [newline]) (str_split (msg log) newline)) \<and>
   int (length (str_split (msg log) newline)) = commit_linecount log \<and>
   concat (map (\<lambda>m. m @ [newline]) (str_split (msg log) newline)) = msg log @ [newline] \<and>
   str_split (commit_message log) newline =
     map (\<lambda>m. ''    '' @ m) (str_split (msg log) newline) @ [[]] \<and>
   (msg log \<noteq> [] \<and> last (msg log) = newline \<longrightarrow>
      last (str_split (msg log) newline) = [] \<and>
      (\<exists>body. commit_message log = body @ ''    '' @ [newline])) \<and>
   (\<exists>block. new_commit_string log = block @ commit_message log @ [newline] @ ''```'')"
proof (intro conjI impI)
  show cm: "commit_message log =
      concat (map (\<lambda>m. ''    '' @ m @ [newline]) (str_split (msg log) newline))"
    by (simp add: commit_message_def message_loop_concat four_spaces)
  show "int (length (str_split (msg log) newline)) = commit_linecount log"
    by (simp add: str_split_def split_scan_length commit_linecount_def str_count_def)
  show "concat (map (\<lambda>m. m @ [newline]) (str_split (msg log) newline)) = msg log @ [newline]"
    using split_scan_join [of newline "msg log" "[]"] by (simp add: str_split_def)
  have nosep: "\<forall>p\<in>set (str_split (msg log) newline). newline \<notin> set (''    '' @ p)"
    using split_scan_pieces [of newline "[]" "msg log"]
    by (simp add: str_split_def) (simp add: newline_def)
  have "commit_message log =
      concat (map (\<lambda>m. (''    '' @ m) @ [newline]) (str_split (msg log) newline))"
    using cm by simp
  then show "str_split (commit_message log) newline =
      map (\<lambda>m. ''    '' @ m) (str_split (msg log) newline) @ [[]]"
    using split_scan_lines [OF nosep] by (simp only: str_split_def)
  show "\<exists>block. new_commit_string log = block @ commit_message log @ [newline] @ ''```''"
    by (rule exI [of _ "''```'' @ [newline] @ commit_header log @ [newline] @
          commit_separator log @ [newline] @ ''Changed paths:'' @ [newline] @
          commit_changes log @ [newline] @ commit_separator log @ [newline] @
          ''Commit message:'' @ [newline]"])
       (simp add: new_commit_string_layout)
next
  assume a: "msg log \<noteq> [] \<and> last (msg log) = newline"
  then have m: "msg log = butlast (msg log) @ [newline]"
    using append_butlast_last_id [of "msg log"] by simp
  have sp: "str_split (msg log) newline = str_split (butlast (msg log)) newline @ [[]]"
    using split_scan_trailing [of "butlast (msg log)" newline "[]"] m
    by (simp add: str_split_def)
  then show "last (str_split (msg log) newline) = []" by simp
  show "\<exists>body. commit_message log = body @ ''    '' @ [newline]"
    by (rule exI [of _ "concat (map (\<lambda>m. ''    '' @ m @ [newline])
          (str_split (butlast (msg log)) newline))"])
       (simp add: commit_message_def message_loop_concat four_spaces sp)
qed

theorem message_lines_one_per_split_piece_witness:
  "msg (commit 6 ''a\<newline>'' []) \<noteq> [] \<and> last (msg (commit 6 ''a\<newline>'' [])) = newline \<and>
   last (str_split (msg (commit 6 ''a\<newline>'' [])) newline) = [] \<and>
   int (length (str_split (msg (commit 6 ''a\<newline>'' [])) newline)) =
     commit_linecount (commit 6 ''a\<newline>'' [])"
proof -
  have e: "msg (commit 6 ''a\<newline>'' []) \<noteq> [] \<and> last (msg (commit 6 ''a\<newline>'' [])) = newline"
    by code_simp
  show ?thesis
    using message_lines_one_per_split_piece [of "commit 6 ''a\<newline>'' []"] e by blast
qed

text \<open>
  Claim C5 as stated fails for a message that ends in a newline: \<^verbatim>\<open>"a\n"\<close> is rendered
  as the line of the message and a second line of four spaces.
\<close>

theorem trailing_blank_line_not_suppressed_counterexample:
  "commit_message (commit 6 ''a\<newline>'' []) = ''    a\<newline>    \<newline>'' \<and>
   str_split (commit_message (commit 6 ''a\<newline>'' [])) newline = [''    a'', ''    '', []]"
  by code_simp

text \<open>
  Claim C8, as amended. For a commit whose list of changed paths is empty the changes text
  is empty, and the block holds the label \<open>Changed paths:\<close>, then one empty line (the
  template's newline after the empty text), then the second separator line.
\<close>

theorem empty_changelist_leaves_an_empty_line:
  "changelist log = [] \<longrightarrow>
     commit_changes log = [] \<and>
     new_commit_string log =
       ''```'' @ [newline] @ commit_header log @ [newline] @ commit_separator log @ [newline] @
       ''Changed paths:'' @ [newline] @ [newline] @ commit_separator log @ [newline] @
       ''Commit message:'' @ [newline] @ commit_message log @ [newline] @ ''```''"
  by (simp add: new_commit_string_layout commit_changes_butlast)

theorem empty_changelist_leaves_an_empty_line_witness:
  "changelist (commit 6 ''fix bug'' []) = [] \<and> commit_changes (commit 6 ''fix bug'' []) = []"
  using empty_changelist_leaves_an_empty_line [of "commit 6 ''fix bug'' []"]
  by (simp add: commit_def)

text \<open>
  Claim C8 as stated fails: the block of a commit without changed paths has an empty line
  between the label and the second separator.
\<close>

theorem empty_changelist_block_counterexample:
  "new_commit_string (commit 6 ''fix bug'' []) =
     ''```\<newline>r6 | dino | 2021-03-04 10:20:30 +0000 (Thu, 04 Mar 2021) | 1 line\<newline>-----------------------------------------------------------------\<newline>Changed paths:\<newline>\<newline>-----------------------------------------------------------------\<newline>Commit message:\<newline>    fix bug\<newline>\<newline>```''"
  by code_simp

text \<open>
  Claim C9. For a non-empty list of changed paths the character that the slice
  \<^verbatim>\<open>[0:-1]\<close> removes is the newline generated last: the accumulated text is the sliced
  text followed by a newline. The sliced text is one line \<open><code> | <path>\<close> per entry, in
  order, separated by newlines, with the last entry whole and no newline after it; when
  no code or path holds a newline itself, splitting it at newlines gives exactly those
  lines.
\<close>

theorem changed_paths_one_line_per_entry:
  "changelist log \<noteq> [] \<longrightarrow>
     changes_loop (changelist log) [] = commit_changes log @ [newline] \<and>
     commit_changes log =
       concat (map (\<lambda>c. fst c @ '' | '' @ snd c @ [newline]) (butlast (changelist log))) @
       fst (last (changelist log)) @ '' | '' @ snd (last (changelist log)) \<and>
     ((\<forall>c\<in>set (changelist log). newline \<notin> set (fst c) \<and> newline \<notin> set (snd c)) \<longrightarrow>
        str_split (commit_changes log) newline =
          map (\<lambda>c. fst c @ '' | '' @ snd c) (changelist log))"
proof (intro impI conjI)
  assume ne: "changelist log \<noteq> []"
  let ?f = "\<lambda>c::string \<times> string. fst c @ '' | '' @ snd c"
  let ?all = "concat (map (\<lambda>c. ?f c @ [newline]) (changelist log))"
  have nonempty: "?all \<noteq> []" using ne by (cases "changelist log") auto
  have loop: "changes_loop (changelist log) [] = ?all"
    by (simp add: changes_loop_concat commit_modeline_template_def)
  have "last ?all = newline" using last_of_lines [OF ne, of ?f newline] by simp
  then have "?all = butlast ?all @ [newline]"
    using nonempty append_butlast_last_id [of ?all] by simp
  then show "changes_loop (changelist log) [] = commit_changes log @ [newline]"
    using loop commit_changes_butlast [of log] by simp
  show "commit_changes log =
       concat (map (\<lambda>c. fst c @ '' | '' @ snd c @ [newline]) (butlast (changelist log))) @
       fst (last (changelist log)) @ '' | '' @ snd (last (changelist log))"
    using butlast_lines [OF ne, of ?f newline] commit_changes_butlast [of log] by simp
next
  assume ne: "changelist log \<noteq> []"
    and nl: "\<forall>c\<in>set (changelist log). newline \<notin> set (fst c) \<and> newline \<notin> set (snd c)"
  let ?f = "\<lambda>c::string \<times> string. fst c @ '' | '' @ snd c"
  have "\<forall>c\<in>set (changelist log). newline \<notin> set (?f c)"
    using nl by (simp add: newline_def)
  from split_scan_lines_butlast [OF ne this]
  show "str_split (commit_changes log) newline =
          map (\<lambda>c. fst c @ '' | '' @ snd c) (changelist log)"
    by (simp only: str_split_def commit_changes_butlast)
qed

theorem changed_paths_one_line_per_entry_witness:
  "changelist (commit 6 ''fix bug'' [(''M'', ''/trunk/a.py''), (''A'', ''/trunk/b.py'')]) \<noteq> [] \<and>
   changes_loop
     (changelist (commit 6 ''fix bug'' [(''M'', ''/trunk/a.py''), (''A'', ''/trunk/b.py'')])) [] =
     commit_changes (commit 6 ''fix bug'' [(''M'', ''/trunk/a.py''), (''A'', ''/trunk/b.py'')]) @
     [newline] \<and>
   str_split (commit_changes
       (commit 6 ''fix bug'' [(''M'', ''/trunk/a.py''), (''A'', ''/trunk/b.py'')])) newline =
     [''M | /trunk/a.py'', ''A | /trunk/b.py'']"
proof -
  let ?l = "commit 6 ''fix bug'' [(''M'', ''/trunk/a.py''), (''A'', ''/trunk/b.py'')]"
  have ne: "changelist ?l \<noteq> []" by code_simp
  have nl: "\<forall>c\<in>set (changelist ?l). newline \<notin> set (fst c) \<and> newline \<notin> set (snd c)"
    by code_simp
  have m: "map (\<lambda>c. fst c @ '' | '' @ snd c) (changelist ?l) =
      [''M | /trunk/a.py'', ''A | /trunk/b.py'']"
    by code_simp
  note t = changed_paths_one_line_per_entry [of ?l]
  have l: "changes_loop (changelist ?l) [] = commit_changes ?l @ [newline]"
    using t ne by blast
  have "str_split (commit_changes ?l) newline =
      map (\<lambda>c. fst c @ '' | '' @ snd c) (changelist ?l)"
    using t ne nl by blast
  then have s: "str_split (commit_changes ?l) newline =
      [''M | /trunk/a.py'', ''A | /trunk/b.py'']"
    using m by (rule trans)
  show ?thesis using ne l s by blast
qed

end
